theory Spec2Isabelle
  imports
    Main
    "HOL-Library.Char_ord"
    "HOL-Library.List_Lexorder"
    "HOL-Library.Multiset"
    "HOL-Library.AList"
begin

section \<open>Strings\<close>

text \<open>
  A Python \<open>str\<close> is modelled as a \<open>string\<close>, a list of characters, each character
  being a code point below 256. The comparison \<open>s < t\<close> of two Python strings is the
  lexicographic order on the code points, which is the order of
  \<open>HOL-Library.List_Lexorder\<close> over the order of \<open>HOL-Library.Char_ord\<close>.

  \<open>str.lower()\<close> maps, on this range of code points, exactly the code points
  0x41..0x5A, 0xC0..0xD6 and 0xD8..0xDE to the code point 32 above, and leaves the
  others unchanged. Beyond this range \<open>str.lower()\<close> is not a character-by-character
  map (a capital sigma at the end of a word becomes a final sigma), so there a literal
  prefix of a word need not lower-case to a prefix of the lower-cased word. The
  statements about the trie are therefore conditions on the lower-cased strings
  themselves.
\<close>

definition lower_char :: "char \<Rightarrow> char" where
  "lower_char c =
     (let n = (of_char c :: nat) in
      if (65 \<le> n \<and> n \<le> 90) \<or> (192 \<le> n \<and> n \<le> 214) \<or> (216 \<le> n \<and> n \<le> 222)
      then char_of (n + 32) else c)"

definition lower :: "string \<Rightarrow> string" where
  "lower s = map lower_char s"

text \<open>\<open>s.startswith(p)\<close>: the first \<open>len(p)\<close> characters of \<open>s\<close> are \<open>p\<close>.\<close>

definition startswith :: "string \<Rightarrow> string \<Rightarrow> bool" where
  "startswith s p = (take (length p) s = p)"

section \<open>Errors\<close>

text \<open>
  \<open>AttributeError\<close> is what Python raises when an attribute of \<open>None\<close> is read,
  \<open>IndexError\<close> what it raises when a list is indexed out of range.
\<close>

datatype error = AttributeError | IndexError

section \<open>The treap\<close>

text \<open>
  A reference to a \<open>TreapNode\<close> is either \<open>None\<close> (\<open>TNone\<close>) or a node with its
  location, priority, left and right child. The priority that the constructor draws
  with \<open>random.randint(1, 100)\<close> is a parameter of the model: every function that
  constructs a node takes the drawn value as its first argument.
\<close>

datatype tnode = TNone | TreapNode string int tnode tnode

fun rotateRight :: "tnode \<Rightarrow> error + tnode" where
  "rotateRight (TreapNode k q (TreapNode lk lq ll lr) r) =
     Inr (TreapNode lk lq ll (TreapNode k q lr r))"
| "rotateRight (TreapNode k q TNone r) = Inl AttributeError"
| "rotateRight TNone = Inl AttributeError"

fun rotateLeft :: "tnode \<Rightarrow> error + tnode" where
  "rotateLeft (TreapNode k q l (TreapNode rk rq rl rr)) =
     Inr (TreapNode rk rq (TreapNode k q l rl) rr)"
| "rotateLeft (TreapNode k q l TNone) = Inl AttributeError"
| "rotateLeft TNone = Inl AttributeError"

text \<open>
  \<open>Treap.insert(root, location)\<close>; \<open>p\<close> is the priority drawn for the one node that
  the call constructs. Reading \<open>root.left.priority\<close> raises when \<open>root.left\<close> is
  \<open>None\<close>.
\<close>

fun Treap_insert :: "int \<Rightarrow> tnode \<Rightarrow> string \<Rightarrow> error + tnode" where
  "Treap_insert p TNone loc = Inr (TreapNode loc p TNone TNone)"
| "Treap_insert p (TreapNode k q l r) loc =
     (if loc < k then
        (case Treap_insert p l loc of
           Inl e \<Rightarrow> Inl e
         | Inr TNone \<Rightarrow> Inl AttributeError
         | Inr (TreapNode lk lq ll lr) \<Rightarrow>
             if lq > q then rotateRight (TreapNode k q (TreapNode lk lq ll lr) r)
             else Inr (TreapNode k q (TreapNode lk lq ll lr) r))
      else
        (case Treap_insert p r loc of
           Inl e \<Rightarrow> Inl e
         | Inr TNone \<Rightarrow> Inl AttributeError
         | Inr (TreapNode rk rq rl rr) \<Rightarrow>
             if rq > q then rotateLeft (TreapNode k q l (TreapNode rk rq rl rr))
             else Inr (TreapNode k q l (TreapNode rk rq rl rr))))"

text \<open>A \<open>Treap\<close> object holds only its root; it is modelled by that root.\<close>

definition Treap_init :: tnode where
  "Treap_init = TNone"

definition insertNode :: "int \<Rightarrow> tnode \<Rightarrow> string \<Rightarrow> error + tnode" where
  "insertNode p root loc = Treap_insert p root loc"

fun Treap_search :: "tnode \<Rightarrow> string \<Rightarrow> string list" where
  "Treap_search TNone prefix = []"
| "Treap_search (TreapNode k q l r) prefix =
     (if startswith k prefix then [k] else []) @
     (if prefix < k then Treap_search l prefix else Treap_search r prefix)"

definition searchPrefix :: "tnode \<Rightarrow> string \<Rightarrow> string list" where
  "searchPrefix root prefix = Treap_search root prefix"

text \<open>A sequence of \<open>insertNode\<close> calls, each with its priority draw and its key.\<close>

fun insertNodes :: "(int \<times> string) list \<Rightarrow> tnode \<Rightarrow> error + tnode" where
  "insertNodes [] root = Inr root"
| "insertNodes ((p, loc) # rest) root =
     (case insertNode p root loc of
        Inl e \<Rightarrow> Inl e
      | Inr root' \<Rightarrow> insertNodes rest root')"

section \<open>The trie\<close>

text \<open>
  A \<open>TrieNode\<close> holds \<open>children\<close>, a Python dict from characters to nodes, and the flag
  \<open>is_end_of_word\<close>. A dict iterates in the order in which its keys were first stored,
  so it is an association list: a new key is appended, the value of an existing key is
  replaced where it stands (\<open>AList.update\<close>), and \<open>map_of\<close> looks a key up.
\<close>

datatype TrieNode = TrieNode "(char \<times> TrieNode) list" bool

text \<open>
  The loop of \<open>Trie.insert\<close> from the node \<open>current\<close> over the remaining characters
  of the lower-cased word. The child that the loop moves to is mutated in place; the
  model stores the updated child back under its key.
\<close>

fun Trie_insert_loop :: "TrieNode \<Rightarrow> string \<Rightarrow> TrieNode" where
  "Trie_insert_loop (TrieNode cs e) [] = TrieNode cs True"
| "Trie_insert_loop (TrieNode cs e) (c # w) =
     (case map_of cs c of
        None \<Rightarrow> TrieNode (AList.update c (Trie_insert_loop (TrieNode [] False) w) cs) e
      | Some child \<Rightarrow> TrieNode (AList.update c (Trie_insert_loop child w) cs) e)"

text \<open>A \<open>Trie\<close> object holds only its root; it is modelled by that root.\<close>

definition Trie_init :: TrieNode where
  "Trie_init = TrieNode [] False"

definition Trie_insert :: "TrieNode \<Rightarrow> string \<Rightarrow> TrieNode" where
  "Trie_insert root word = Trie_insert_loop root (lower word)"

fun Trie_findWords :: "TrieNode \<Rightarrow> string \<Rightarrow> string list" where
  "Trie_findWords (TrieNode cs e) prefix =
     (if e then [prefix] else []) @
     concat (map (\<lambda>kv. Trie_findWords (snd kv) (prefix @ [fst kv])) cs)"

text \<open>
  The loop of \<open>Trie.search\<close>: \<open>None\<close> when a character has no child (the early
  \<open>return []\<close>), otherwise the node reached.
\<close>

fun Trie_search_loop :: "TrieNode \<Rightarrow> string \<Rightarrow> TrieNode option" where
  "Trie_search_loop current [] = Some current"
| "Trie_search_loop (TrieNode cs e) (c # w) =
     (case map_of cs c of
        None \<Rightarrow> None
      | Some child \<Rightarrow> Trie_search_loop child w)"

definition Trie_search :: "TrieNode \<Rightarrow> string \<Rightarrow> string list" where
  "Trie_search root prefix =
     (case Trie_search_loop root (lower prefix) of
        None \<Rightarrow> []
      | Some current \<Rightarrow> Trie_findWords current (lower prefix))"

section \<open>The location graph\<close>

record LocationGraph =
  locations :: "string list"
  treap :: tnode
  trie :: TrieNode

definition LocationGraph_init :: LocationGraph where
  "LocationGraph_init = \<lparr>locations = [], treap = Treap_init, trie = Trie_init\<rparr>"

text \<open>What a Python call returns: \<open>None\<close> or a string.\<close>

datatype pyval = PyNone | PyStr string

text \<open>
  \<open>addLocations(newLocations)\<close> reads \<open>newLocations[0]\<close> and \<open>newLocations[1]\<close>, which
  raises on a list of fewer than two elements; it has no \<open>return\<close> statement, so the
  call returns \<open>None\<close>. \<open>p\<close> is the priority drawn for the new treap node.
\<close>

definition addLocations ::
    "int \<Rightarrow> string list \<Rightarrow> LocationGraph \<Rightarrow> error + (pyval \<times> LocationGraph)" where
  "addLocations p newLocations g =
     (case newLocations of
        departure # arrival # _ \<Rightarrow>
          (let combinedLocation = departure @ '' -> '' @ arrival in
           case insertNode p (treap g) combinedLocation of
             Inl e \<Rightarrow> Inl e
           | Inr root' \<Rightarrow>
               Inr (PyNone,
                    g\<lparr>treap := root',
                      trie := Trie_insert (trie g) combinedLocation,
                      locations := locations g @ [combinedLocation]\<rparr>))
      | _ \<Rightarrow> Inl IndexError)"

definition searchLocations :: "LocationGraph \<Rightarrow> string \<Rightarrow> string list" where
  "searchLocations g prefix = searchPrefix (treap g) prefix"

definition autocomplete :: "LocationGraph \<Rightarrow> string \<Rightarrow> string list" where
  "autocomplete g prefix = Trie_search (trie g) prefix"

text \<open>
  A sequence of \<open>addLocations\<close> calls, each with its priority draw, its departure and
  its arrival.
\<close>

fun addRoutes ::
    "(int \<times> string \<times> string) list \<Rightarrow> LocationGraph \<Rightarrow> error + LocationGraph" where
  "addRoutes [] g = Inr g"
| "addRoutes ((p, departure, arrival) # rest) g =
     (case addLocations p [departure, arrival] g of
        Inl e \<Rightarrow> Inl e
      | Inr (_, g') \<Rightarrow> addRoutes rest g')"

section \<open>Properties used in the statements\<close>

text \<open>
  The nodes of a treap in in-order, each as its key and its priority; \<open>keys\<close> are the
  keys alone, \<open>prios\<close> the multiset of the priorities.
\<close>

fun inorder :: "tnode \<Rightarrow> (string \<times> int) list" where
  "inorder TNone = []"
| "inorder (TreapNode k q l r) = inorder l @ (k, q) # inorder r"

definition keys :: "tnode \<Rightarrow> string list" where
  "keys t = map fst (inorder t)"

text \<open>
  The order invariant: at every node the keys of the left subtree are at most the
  node's key and the keys of the right subtree are at least the node's key.
\<close>

fun bst :: "tnode \<Rightarrow> bool" where
  "bst TNone = True"
| "bst (TreapNode k q l r) =
     ((\<forall>x \<in> set (keys l). x \<le> k) \<and> (\<forall>x \<in> set (keys r). k \<le> x) \<and> bst l \<and> bst r)"

text \<open>
  \<open>node.priority\<close> when the reference is a node.
\<close>

fun priority_of :: "tnode \<Rightarrow> int option" where
  "priority_of TNone = None"
| "priority_of (TreapNode k q l r) = Some q"

text \<open>
  The heap invariant: at every node the priority of each child that exists is at most
  the node's priority.
\<close>

fun child_ok :: "int \<Rightarrow> tnode \<Rightarrow> bool" where
  "child_ok q TNone = True"
| "child_ok q (TreapNode ck cq cl cr) = (cq \<le> q)"

fun heap :: "tnode \<Rightarrow> bool" where
  "heap TNone = True"
| "heap (TreapNode k q l r) = (child_ok q l \<and> child_ok q r \<and> heap l \<and> heap r)"

fun prios :: "tnode \<Rightarrow> int multiset" where
  "prios TNone = {#}"
| "prios (TreapNode k q l r) = add_mset q (prios l + prios r)"

text \<open>
  The search as the specification words it. \<open>spec_descent\<close> is the single path of the
  descent: from the root, left when the prefix is below the node's key, right
  otherwise; \<open>literal_prefix p s\<close> is the literal check that \<open>s\<close> begins with \<open>p\<close>;
  \<open>spec_searchPrefix\<close> keeps, in the order of the path, the keys that begin with the
  prefix.
\<close>

fun spec_descent :: "tnode \<Rightarrow> string \<Rightarrow> string list" where
  "spec_descent TNone prefix = []"
| "spec_descent (TreapNode k q l r) prefix =
     k # (if prefix < k then spec_descent l prefix else spec_descent r prefix)"

fun literal_prefix :: "string \<Rightarrow> string \<Rightarrow> bool" where
  "literal_prefix [] s = True"
| "literal_prefix (c # p) [] = False"
| "literal_prefix (c # p) (d # s) = (c = d \<and> literal_prefix p s)"

definition spec_searchPrefix :: "tnode \<Rightarrow> string \<Rightarrow> string list" where
  "spec_searchPrefix root prefix = filter (literal_prefix prefix) (spec_descent root prefix)"

text \<open>
  \<open>accepts t w\<close>: walking \<open>w\<close> from the node \<open>t\<close> through the dict lookups ends in a
  node whose \<open>is_end_of_word\<close> is set.
\<close>

fun accepts :: "TrieNode \<Rightarrow> string \<Rightarrow> bool" where
  "accepts (TrieNode cs e) [] = e"
| "accepts (TrieNode cs e) (c # w) =
     (case map_of cs c of None \<Rightarrow> False | Some child \<Rightarrow> accepts child w)"

text \<open>
  \<open>is_dict t\<close>: the association lists below \<open>t\<close> are dicts, that is, no key occurs
  twice in one node.
\<close>

fun is_dict :: "TrieNode \<Rightarrow> bool" where
  "is_dict (TrieNode cs e) = (distinct (map fst cs) \<and> (\<forall>kv \<in> set cs. is_dict (snd kv)))"

text \<open>
  The canonical key of a route, and the key and the treap draw of one
  \<open>addLocations\<close> call.
\<close>

definition canonical_key :: "string \<Rightarrow> string \<Rightarrow> string" where
  "canonical_key departure arrival = departure @ '' -> '' @ arrival"

fun route_key :: "int \<times> string \<times> string \<Rightarrow> string" where
  "route_key (p, departure, arrival) = canonical_key departure arrival"

fun route_draw :: "int \<times> string \<times> string \<Rightarrow> int \<times> string" where
  "route_draw (p, departure, arrival) = (p, canonical_key departure arrival)"

text \<open>
  A fresh \<open>LocationGraph\<close>, a sequence of \<open>addLocations\<close> calls, then one query. The
  result is \<open>Inl\<close> when one of the calls raises.
\<close>

definition autocomplete_after ::
    "(int \<times> string \<times> string) list \<Rightarrow> string \<Rightarrow> error + string list" where
  "autocomplete_after rs prefix =
     (case addRoutes rs LocationGraph_init of
        Inl e \<Rightarrow> Inl e
      | Inr g \<Rightarrow> Inr (autocomplete g prefix))"

definition searchLocations_after ::
    "(int \<times> string \<times> string) list \<Rightarrow> string \<Rightarrow> error + string list" where
  "searchLocations_after rs prefix =
     (case addRoutes rs LocationGraph_init of
        Inl e \<Rightarrow> Inl e
      | Inr g \<Rightarrow> Inr (searchLocations g prefix))"

section \<open>Auxiliary facts\<close>

lemma keys_simps [simp]:
  "keys TNone = []"
  "keys (TreapNode k q l r) = keys l @ k # keys r"
  by (simp_all add: keys_def)

lemma Treap_insert_node:
  "\<exists>k q l r. Treap_insert p t loc = Inr (TreapNode k q l r)"
proof (induction t)
  case TNone
  show ?case by simp
next
  case (TreapNode k q l r)
  from TreapNode.IH(1) obtain lk lq ll lr
    where L: "Treap_insert p l loc = Inr (TreapNode lk lq ll lr)" by blast
  from TreapNode.IH(2) obtain rk rq rl rr
    where R: "Treap_insert p r loc = Inr (TreapNode rk rq rl rr)" by blast
  show ?case by (simp add: L R)
qed

lemma Treap_insert_inorder:
  assumes "bst t" and "Treap_insert p t loc = Inr t'"
  shows "inorder t' =
         filter (\<lambda>kp. fst kp \<le> loc) (inorder t) @ (loc, p) # filter (\<lambda>kp. loc < fst kp) (inorder t)"
  using assms
proof (induction t arbitrary: t')
  case TNone
  then show ?case by auto
next
  case (TreapNode k q l r)
  show ?case
  proof (cases "loc < k")
    case True
    from Treap_insert_node[of p l loc] obtain lk lq ll lr
      where L: "Treap_insert p l loc = Inr (TreapNode lk lq ll lr)" by blast
    have bl: "bst l" using TreapNode.prems(1) by simp
    note ih = TreapNode.IH(1)[OF bl L]
    have t': "inorder t' = inorder (TreapNode lk lq ll lr) @ (k, q) # inorder r"
      using TreapNode.prems(2) True L by (auto split: if_splits)
    have r1: "filter (\<lambda>kp. fst kp \<le> loc) (inorder r) = []"
      using TreapNode.prems(1) True by (auto simp: filter_empty_conv keys_def)
    have r2: "filter (\<lambda>kp. loc < fst kp) (inorder r) = inorder r"
      using TreapNode.prems(1) True by (auto simp: filter_id_conv keys_def)
    have nk: "\<not> k \<le> loc" using True by simp
    have step: "inorder t' =
        (filter (\<lambda>kp. fst kp \<le> loc) (inorder l) @ (loc, p) # filter (\<lambda>kp. loc < fst kp) (inorder l))
        @ (k, q) # inorder r"
      by (simp only: t' ih)
    show ?thesis using True nk by (simp add: step r1 r2)
  next
    case False
    from Treap_insert_node[of p r loc] obtain rk rq rl rr
      where R: "Treap_insert p r loc = Inr (TreapNode rk rq rl rr)" by blast
    have br: "bst r" using TreapNode.prems(1) by simp
    note ih = TreapNode.IH(2)[OF br R]
    have t': "inorder t' = inorder l @ (k, q) # inorder (TreapNode rk rq rl rr)"
      using TreapNode.prems(2) False R by (auto split: if_splits)
    have l1: "filter (\<lambda>kp. fst kp \<le> loc) (inorder l) = inorder l"
      using TreapNode.prems(1) False by (auto simp: filter_id_conv keys_def)
    have l2: "filter (\<lambda>kp. loc < fst kp) (inorder l) = []"
      using TreapNode.prems(1) False by (auto simp: filter_empty_conv keys_def)
    have nk: "k \<le> loc" using False by simp
    have step: "inorder t' = inorder l @ (k, q) #
        (filter (\<lambda>kp. fst kp \<le> loc) (inorder r) @ (loc, p) # filter (\<lambda>kp. loc < fst kp) (inorder r))"
      by (simp only: t' ih)
    show ?thesis using False nk by (simp add: step l1 l2)
  qed
qed

lemma bst_iff_sorted: "bst t \<longleftrightarrow> sorted (keys t)"
  by (induction t) (auto simp: sorted_append, meson order_trans)

lemma Treap_insert_bst:
  assumes "bst t" and "Treap_insert p t loc = Inr t'"
  shows "bst t'"
proof -
  have "keys t' = filter (\<lambda>x. x \<le> loc) (keys t) @ loc # filter (\<lambda>x. loc < x) (keys t)"
    using Treap_insert_inorder[OF assms] by (simp add: keys_def filter_map comp_def)
  moreover have "sorted (keys t)" using assms(1) by (simp add: bst_iff_sorted)
  ultimately have "sorted (keys t')" by (auto simp: sorted_append sorted_wrt_filter)
  then show ?thesis by (simp add: bst_iff_sorted)
qed

lemma prios_inorder: "prios t = mset (map snd (inorder t))"
  by (induction t) simp_all

lemma heap_bound:
  "heap t \<Longrightarrow> child_ok q t \<Longrightarrow> x \<in># prios t \<Longrightarrow> x \<le> q"
proof (induction t arbitrary: q)
  case TNone
  then show ?case by simp
next
  case (TreapNode k c l r)
  have cq: "c \<le> q" using TreapNode.prems(2) by simp
  from TreapNode.prems(3) consider "x = c" | "x \<in># prios l" | "x \<in># prios r" by auto
  then show ?case
  proof cases
    case 1
    then show ?thesis using cq by simp
  next
    case 2
    have "x \<le> c" using TreapNode.IH(1)[of c] TreapNode.prems(1) 2 by simp
    then show ?thesis using cq by simp
  next
    case 3
    have "x \<le> c" using TreapNode.IH(2)[of c] TreapNode.prems(1) 3 by simp
    then show ?thesis using cq by simp
  qed
qed

lemma child_ok_bound:
  "(\<And>x. x \<in># prios t \<Longrightarrow> x \<le> q) \<Longrightarrow> child_ok q t"
  by (cases t) simp_all

lemma Treap_insert_prios:
  "Treap_insert p t loc = Inr t' \<Longrightarrow> prios t' = add_mset p (prios t)"
proof (induction t arbitrary: t')
  case TNone
  then show ?case by auto
next
  case (TreapNode k q l r)
  from Treap_insert_node[of p l loc] obtain lk lq ll lr
    where L: "Treap_insert p l loc = Inr (TreapNode lk lq ll lr)" by blast
  from Treap_insert_node[of p r loc] obtain rk rq rl rr
    where R: "Treap_insert p r loc = Inr (TreapNode rk rq rl rr)" by blast
  note ihl = TreapNode.IH(1)[OF L]
  note ihr = TreapNode.IH(2)[OF R]
  show ?case
  proof (cases "loc < k")
    case True
    have "prios t' = add_mset q (prios (TreapNode lk lq ll lr) + prios r)"
      using TreapNode.prems True L by (auto split: if_splits)
    then show ?thesis by (simp only: ihl) simp
  next
    case False
    have "prios t' = add_mset q (prios l + prios (TreapNode rk rq rl rr))"
      using TreapNode.prems False R by (auto split: if_splits)
    then show ?thesis by (simp only: ihr) simp
  qed
qed

lemma Treap_insert_heap:
  assumes "heap t" and "Treap_insert p t loc = Inr t'"
  shows "heap t'"
  using assms
proof (induction t arbitrary: t')
  case TNone
  then show ?case by auto
next
  case (TreapNode k q l r)
  have hl: "heap l" and hr: "heap r" and cl: "child_ok q l" and cr: "child_ok q r"
    using TreapNode.prems(1) by simp_all
  show ?case
  proof (cases "loc < k")
    case True
    from Treap_insert_node[of p l loc] obtain lk lq ll lr
      where L: "Treap_insert p l loc = Inr (TreapNode lk lq ll lr)" by blast
    have hl': "heap (TreapNode lk lq ll lr)" by (rule TreapNode.IH(1)[OF hl L])
    have pl': "add_mset lq (prios ll + prios lr) = add_mset p (prios l)"
      using Treap_insert_prios[OF L] by simp
    show ?thesis
    proof (cases "lq > q")
      case False
      then have "t' = TreapNode k q (TreapNode lk lq ll lr) r"
        using TreapNode.prems(2) True L by simp
      then show ?thesis using hl' hr cr False by simp
    next
      case up: True
      then have t': "t' = TreapNode lk lq ll (TreapNode k q lr r)"
        using TreapNode.prems(2) True L by simp
      have old: "\<And>x. x \<in># prios l \<Longrightarrow> x \<le> q" using heap_bound[OF hl cl] .
      have "lq \<in># add_mset p (prios l)" using pl' by (metis union_single_eq_member)
      then have "lq = p" using old up by fastforce
      then have "prios ll + prios lr = prios l" using pl' by simp
      then have "\<And>x. x \<in># prios lr \<Longrightarrow> x \<le> q" using old by (metis union_iff)
      then have "child_ok q lr" by (rule child_ok_bound)
      then show ?thesis using hl' hr cr up by (simp add: t')
    qed
  next
    case right: False
    from Treap_insert_node[of p r loc] obtain rk rq rl rr
      where R: "Treap_insert p r loc = Inr (TreapNode rk rq rl rr)" by blast
    have hr': "heap (TreapNode rk rq rl rr)" by (rule TreapNode.IH(2)[OF hr R])
    have pr': "add_mset rq (prios rl + prios rr) = add_mset p (prios r)"
      using Treap_insert_prios[OF R] by simp
    show ?thesis
    proof (cases "rq > q")
      case False
      then have "t' = TreapNode k q l (TreapNode rk rq rl rr)"
        using TreapNode.prems(2) right R by simp
      then show ?thesis using hr' hl cl False by simp
    next
      case up: True
      then have t': "t' = TreapNode rk rq (TreapNode k q l rl) rr"
        using TreapNode.prems(2) right R by simp
      have old: "\<And>x. x \<in># prios r \<Longrightarrow> x \<le> q" using heap_bound[OF hr cr] .
      have "rq \<in># add_mset p (prios r)" using pr' by (metis union_single_eq_member)
      then have "rq = p" using old up by fastforce
      then have "prios rl + prios rr = prios r" using pr' by simp
      then have "\<And>x. x \<in># prios rl \<Longrightarrow> x \<le> q" using old by (metis union_iff)
      then have "child_ok q rl" by (rule child_ok_bound)
      then show ?thesis using hr' hl cl up by (simp add: t')
    qed
  qed
qed

lemma literal_prefix_iff: "literal_prefix p s \<longleftrightarrow> (\<exists>u. s = p @ u)"
  by (induction p s rule: literal_prefix.induct) auto

lemma startswith_iff: "startswith s p \<longleftrightarrow> (\<exists>u. s = p @ u)"
  unfolding startswith_def
proof
  assume "take (length p) s = p"
  then have "s = p @ drop (length p) s" by (metis append_take_drop_id)
  then show "\<exists>u. s = p @ u" ..
next
  assume "\<exists>u. s = p @ u"
  then show "take (length p) s = p" by auto
qed

lemma Treap_search_descent:
  "Treap_search t prefix = filter (literal_prefix prefix) (spec_descent t prefix)"
  by (induction t) (simp_all add: literal_prefix_iff startswith_iff)

lemma insertNodes_total:
  "\<exists>t. insertNodes draws root = Inr t"
proof (induction draws arbitrary: root)
  case Nil
  show ?case by simp
next
  case (Cons d draws)
  obtain p loc where d: "d = (p, loc)" by (cases d)
  from Treap_insert_node[of p root loc] obtain root'
    where "Treap_insert p root loc = Inr root'" by blast
  then show ?case using Cons.IH[of root'] by (simp add: d insertNode_def)
qed

lemma insertNodes_bst:
  "bst root \<Longrightarrow> insertNodes draws root = Inr t \<Longrightarrow> bst t"
proof (induction draws arbitrary: root)
  case Nil
  then show ?case by simp
next
  case (Cons d draws)
  obtain p loc where d: "d = (p, loc)" by (cases d)
  from Treap_insert_node[of p root loc] obtain root'
    where r: "Treap_insert p root loc = Inr root'" by blast
  have "bst root'" using Treap_insert_bst[OF Cons.prems(1) r] .
  moreover have "insertNodes draws root' = Inr t"
    using Cons.prems(2) by (simp add: d insertNode_def r)
  ultimately show ?case by (rule Cons.IH)
qed

lemma insertNodes_heap:
  "heap root \<Longrightarrow> insertNodes draws root = Inr t \<Longrightarrow> heap t"
proof (induction draws arbitrary: root)
  case Nil
  then show ?case by simp
next
  case (Cons d draws)
  obtain p loc where d: "d = (p, loc)" by (cases d)
  from Treap_insert_node[of p root loc] obtain root'
    where r: "Treap_insert p root loc = Inr root'" by blast
  have "heap root'" using Treap_insert_heap[OF Cons.prems(1) r] .
  moreover have "insertNodes draws root' = Inr t"
    using Cons.prems(2) by (simp add: d insertNode_def r)
  ultimately show ?case by (rule Cons.IH)
qed

lemma Treap_insert_mset:
  "Treap_insert p t loc = Inr t' \<Longrightarrow> mset (inorder t') = add_mset (loc, p) (mset (inorder t))"
proof (induction t arbitrary: t')
  case TNone
  then show ?case by auto
next
  case (TreapNode k q l r)
  from Treap_insert_node[of p l loc] obtain lk lq ll lr
    where L: "Treap_insert p l loc = Inr (TreapNode lk lq ll lr)" by blast
  from Treap_insert_node[of p r loc] obtain rk rq rl rr
    where R: "Treap_insert p r loc = Inr (TreapNode rk rq rl rr)" by blast
  note ihl = TreapNode.IH(1)[OF L]
  note ihr = TreapNode.IH(2)[OF R]
  show ?case
  proof (cases "loc < k")
    case True
    have "mset (inorder t') = mset (inorder (TreapNode lk lq ll lr)) + {#(k, q)#} + mset (inorder r)"
      using TreapNode.prems True L by (auto split: if_splits)
    then show ?thesis by (simp only: ihl) simp
  next
    case False
    have "mset (inorder t') = mset (inorder l) + {#(k, q)#} + mset (inorder (TreapNode rk rq rl rr))"
      using TreapNode.prems False R by (auto split: if_splits)
    then show ?thesis by (simp only: ihr) simp
  qed
qed

lemma insertNodes_mset:
  "insertNodes draws root = Inr t \<Longrightarrow>
   mset (inorder t) = mset (inorder root) + mset (map (\<lambda>d. (snd d, fst d)) draws)"
proof (induction draws arbitrary: root)
  case Nil
  then show ?case by simp
next
  case (Cons d draws)
  obtain p loc where d: "d = (p, loc)" by (cases d)
  from Treap_insert_node[of p root loc] obtain root'
    where r: "Treap_insert p root loc = Inr root'" by blast
  have "insertNodes draws root' = Inr t"
    using Cons.prems by (simp add: d insertNode_def r)
  from Cons.IH[OF this] show ?case
    by (simp add: Treap_insert_mset[OF r] d)
qed

lemma findWords_append:
  "Trie_findWords t (p @ q) = map ((@) p) (Trie_findWords t q)"
proof (induction t q arbitrary: p rule: Trie_findWords.induct)
  case (1 cs e prefix)
  have "map (\<lambda>kv. Trie_findWords (snd kv) ((p @ prefix) @ [fst kv])) cs
        = map (\<lambda>kv. map ((@) p) (Trie_findWords (snd kv) (prefix @ [fst kv]))) cs"
    by (rule map_cong) (simp_all add: "1.IH")
  then have "concat (map (\<lambda>kv. Trie_findWords (snd kv) ((p @ prefix) @ [fst kv])) cs)
        = concat (map (map ((@) p)) (map (\<lambda>kv. Trie_findWords (snd kv) (prefix @ [fst kv])) cs))"
    by (simp only: map_map comp_def)
  then show ?case by (simp add: map_concat)
qed

lemma accepts_empty_node [simp]: "accepts (TrieNode [] False) w = False"
  by (cases w) simp_all

lemma accepts_insert_loop:
  "accepts (Trie_insert_loop t w) x \<longleftrightarrow> x = w \<or> accepts t x"
proof (induction w arbitrary: t x)
  case Nil
  obtain cs e where t: "t = TrieNode cs e" by (cases t)
  show ?case by (cases x) (simp_all add: t)
next
  case (Cons c w)
  obtain cs e where t: "t = TrieNode cs e" by (cases t)
  show ?case
  proof (cases x)
    case Nil
    then show ?thesis by (simp add: t split: option.splits)
  next
    case (Cons d x')
    show ?thesis
    proof (cases "map_of cs c")
      case None
      then show ?thesis
        using Cons.IH[of "TrieNode [] False" x'] by (simp add: t Cons update_conv')
    next
      case (Some child)
      then show ?thesis
        using Cons.IH[of child x'] by (auto simp add: t Cons update_conv')
    qed
  qed
qed

lemma set_update_cases:
  "kv \<in> set (AList.update c v cs) \<Longrightarrow> kv = (c, v) \<or> kv \<in> set cs"
  by (induction cs) (auto split: if_splits)

lemma is_dict_insert_loop:
  "is_dict t \<Longrightarrow> is_dict (Trie_insert_loop t w)"
proof (induction w arbitrary: t)
  case Nil
  obtain cs e where t: "t = TrieNode cs e" by (cases t)
  show ?case using Nil by (simp add: t)
next
  case (Cons c w)
  obtain cs e where t: "t = TrieNode cs e" by (cases t)
  have d: "distinct (map fst cs)" and ch: "\<And>kv. kv \<in> set cs \<Longrightarrow> is_dict (snd kv)"
    using Cons.prems by (simp_all add: t)
  show ?case
  proof (cases "map_of cs c")
    case None
    have "is_dict (Trie_insert_loop (TrieNode [] False) w)" by (rule Cons.IH) simp
    then show ?thesis
      using None d ch by (auto simp: t distinct_update dest!: set_update_cases)
  next
    case (Some child)
    then have "(c, child) \<in> set cs" by (rule map_of_SomeD)
    then have "is_dict child" using ch by fastforce
    then have "is_dict (Trie_insert_loop child w)" by (rule Cons.IH)
    then show ?thesis
      using Some d ch by (auto simp: t distinct_update dest!: set_update_cases)
  qed
qed

lemma search_loop_accepts:
  "Trie_search_loop t p = Some n \<Longrightarrow> accepts n s = accepts t (p @ s)"
proof (induction p arbitrary: t)
  case Nil
  then show ?case by simp
next
  case (Cons c p)
  obtain cs e where t: "t = TrieNode cs e" by (cases t)
  show ?case using Cons by (auto simp: t split: option.splits)
qed

lemma search_loop_None:
  "Trie_search_loop t p = None \<Longrightarrow> \<not> accepts t (p @ s)"
proof (induction p arbitrary: t)
  case Nil
  then show ?case by simp
next
  case (Cons c p)
  obtain cs e where t: "t = TrieNode cs e" by (cases t)
  show ?case using Cons by (auto simp: t split: option.splits)
qed

lemma search_loop_is_dict:
  "is_dict t \<Longrightarrow> Trie_search_loop t p = Some n \<Longrightarrow> is_dict n"
proof (induction p arbitrary: t)
  case Nil
  then show ?case by simp
next
  case (Cons c p)
  obtain cs e where t: "t = TrieNode cs e" by (cases t)
  from Cons.prems(2) obtain child where m: "map_of cs c = Some child"
    and s: "Trie_search_loop child p = Some n"
    by (auto simp: t split: option.splits)
  have "(c, child) \<in> set cs" using m by (rule map_of_SomeD)
  then have "is_dict child" using Cons.prems(1) by (fastforce simp: t)
  then show ?case using s by (rule Cons.IH)
qed

lemma findWords_complete:
  "accepts t s \<Longrightarrow> pre @ s \<in> set (Trie_findWords t pre)"
proof (induction s arbitrary: t pre)
  case Nil
  obtain cs e where t: "t = TrieNode cs e" by (cases t)
  show ?case using Nil by (simp add: t)
next
  case (Cons c s)
  obtain cs e where t: "t = TrieNode cs e" by (cases t)
  from Cons.prems obtain child where m: "map_of cs c = Some child" and a: "accepts child s"
    by (auto simp: t split: option.splits)
  have in_cs: "(c, child) \<in> set cs" using m by (rule map_of_SomeD)
  have "(pre @ [c]) @ s \<in> set (Trie_findWords child (pre @ [c]))" using a by (rule Cons.IH)
  then have "pre @ c # s \<in> set (Trie_findWords (snd (c, child)) (pre @ [fst (c, child)]))" by simp
  then show ?case using in_cs unfolding t by (auto simp del: snd_conv fst_conv)
qed

lemma findWords_sound:
  "is_dict t \<Longrightarrow> r \<in> set (Trie_findWords t pre) \<Longrightarrow> \<exists>s. r = pre @ s \<and> accepts t s"
proof (induction t pre arbitrary: r rule: Trie_findWords.induct)
  case (1 cs e prefix)
  from "1.prems"(2) consider "e" "r = prefix"
    | kv where "kv \<in> set cs" "r \<in> set (Trie_findWords (snd kv) (prefix @ [fst kv]))"
    by (auto split: if_splits)
  then show ?case
  proof cases
    case 1
    then show ?thesis by (intro exI[of _ "[]"]) simp
  next
    case 2
    have "is_dict (snd kv)" using "1.prems"(1) 2(1) by simp
    from "1.IH"[OF 2(1) this 2(2)] obtain s
      where s: "r = (prefix @ [fst kv]) @ s" "accepts (snd kv) s" by blast
    have "map_of cs (fst kv) = Some (snd kv)"
      using "1.prems"(1) 2(1) by (cases kv) (simp add: map_of_eq_Some_iff)
    then have "accepts (TrieNode cs e) (fst kv # s)" using s(2) by simp
    then show ?thesis using s(1) by (intro exI[of _ "fst kv # s"]) simp
  qed
qed

lemma findWords_has_prefix:
  "r \<in> set (Trie_findWords t pre) \<Longrightarrow> \<exists>s. r = pre @ s"
  using findWords_append[of t pre "[]"] by auto

lemma distinct_concat_keys:
  assumes "distinct (map fst cs)"
    and "\<And>kv. kv \<in> set cs \<Longrightarrow> distinct (f kv)"
    and "\<And>kv r. kv \<in> set cs \<Longrightarrow> r \<in> set (f kv) \<Longrightarrow> \<exists>s. r = pre @ fst kv # s"
  shows "distinct (concat (map f cs))"
  using assms
proof (induction cs)
  case Nil
  show ?case by simp
next
  case (Cons a cs)
  have tl: "distinct (concat (map f cs))"
    using Cons.prems by (intro Cons.IH) auto
  have hd: "distinct (f a)" using Cons.prems(2) by simp
  have disj: "set (f a) \<inter> set (concat (map f cs)) = {}"
  proof (rule ccontr)
    assume "set (f a) \<inter> set (concat (map f cs)) \<noteq> {}"
    then obtain r kv where r1: "r \<in> set (f a)" and kv: "kv \<in> set cs" and r2: "r \<in> set (f kv)"
      by auto
    from Cons.prems(3)[of a r] r1 obtain s1 where "r = pre @ fst a # s1" by auto
    moreover from Cons.prems(3)[of kv r] kv r2 obtain s2 where "r = pre @ fst kv # s2" by auto
    ultimately have "fst a = fst kv" by simp
    then show False using Cons.prems(1) kv by force
  qed
  show ?case using hd tl disj by simp
qed

lemma findWords_distinct:
  "is_dict t \<Longrightarrow> distinct (Trie_findWords t pre)"
proof (induction t pre rule: Trie_findWords.induct)
  case (1 cs e prefix)
  let ?f = "\<lambda>kv. Trie_findWords (snd kv) (prefix @ [fst kv])"
  have d: "distinct (map fst cs)" using "1.prems" by simp
  have each: "\<And>kv. kv \<in> set cs \<Longrightarrow> distinct (?f kv)"
    using "1.IH" "1.prems" by simp
  have shape: "\<And>kv r. kv \<in> set cs \<Longrightarrow> r \<in> set (?f kv) \<Longrightarrow> \<exists>s. r = prefix @ fst kv # s"
    using findWords_has_prefix by fastforce
  have c: "distinct (concat (map ?f cs))"
    using d each shape by (rule distinct_concat_keys)
  have "prefix \<notin> set (concat (map ?f cs))"
  proof
    assume "prefix \<in> set (concat (map ?f cs))"
    then obtain kv where "kv \<in> set cs" "prefix \<in> set (?f kv)" by auto
    with shape obtain s where "prefix = prefix @ fst kv # s" by blast
    then show False by simp
  qed
  then show ?case using c by simp
qed

lemma insert_loop_idem:
  "Trie_insert_loop (Trie_insert_loop t w) w = Trie_insert_loop t w"
proof (induction w arbitrary: t)
  case Nil
  obtain cs e where t: "t = TrieNode cs e" by (cases t)
  show ?case by (simp add: t)
next
  case (Cons c w)
  obtain cs e where t: "t = TrieNode cs e" by (cases t)
  show ?case
    by (cases "map_of cs c") (simp_all add: t update_conv' Cons.IH)
qed

lemma accepts_inserts:
  "accepts (foldl Trie_insert t ws) x \<longleftrightarrow> (\<exists>w \<in> set ws. x = lower w) \<or> accepts t x"
  by (induction ws arbitrary: t) (auto simp: Trie_insert_def accepts_insert_loop)

lemma is_dict_inserts:
  "is_dict t \<Longrightarrow> is_dict (foldl Trie_insert t ws)"
  by (induction ws arbitrary: t) (simp_all add: Trie_insert_def is_dict_insert_loop)

lemma is_dict_init [simp]: "is_dict Trie_init"
  by (simp add: Trie_init_def)

lemma accepts_init [simp]: "accepts Trie_init x = False"
  by (simp add: Trie_init_def)

lemma lower_char_idem: "lower_char (lower_char c) = lower_char c"
  by (auto simp: lower_char_def Let_def)

lemma lower_idem: "lower (lower s) = lower s"
  by (simp add: lower_def lower_char_idem)

lemma Trie_search_complete:
  assumes "accepts t x" and "startswith x (lower p)"
  shows "x \<in> set (Trie_search t p)"
proof -
  from assms(2) obtain s where x: "x = lower p @ s"
    unfolding startswith_def by (metis append_take_drop_id)
  show ?thesis
  proof (cases "Trie_search_loop t (lower p)")
    case None
    then show ?thesis using search_loop_None[OF None, of s] assms(1) x by simp
  next
    case (Some n)
    have "accepts n s" using search_loop_accepts[OF Some, of s] assms(1) x by simp
    then show ?thesis using findWords_complete[of n s "lower p"] Some x
      by (simp add: Trie_search_def)
  qed
qed

lemma Trie_search_sound:
  assumes "is_dict t" and "r \<in> set (Trie_search t p)"
  shows "accepts t r \<and> startswith r (lower p)"
proof (cases "Trie_search_loop t (lower p)")
  case None
  then show ?thesis using assms(2) by (simp add: Trie_search_def)
next
  case (Some n)
  have n: "is_dict n" using search_loop_is_dict[OF assms(1) Some] .
  have "r \<in> set (Trie_findWords n (lower p))" using assms(2) Some by (simp add: Trie_search_def)
  from findWords_sound[OF n this] obtain s where s: "r = lower p @ s" "accepts n s" by blast
  then show ?thesis using search_loop_accepts[OF Some, of s] by (simp add: startswith_def)
qed

lemma Trie_search_distinct:
  assumes "is_dict t"
  shows "distinct (Trie_search t p)"
proof (cases "Trie_search_loop t (lower p)")
  case None
  then show ?thesis by (simp add: Trie_search_def)
next
  case (Some n)
  then show ?thesis
    using findWords_distinct[OF search_loop_is_dict[OF assms Some]] by (simp add: Trie_search_def)
qed

lemma addLocations_result:
  "\<exists>root'. insertNode p (treap g) (canonical_key departure arrival) = Inr root' \<and>
     addLocations p [departure, arrival] g =
       Inr (PyNone, \<lparr>locations = locations g @ [canonical_key departure arrival],
                    treap = root',
                    trie = Trie_insert (trie g) (canonical_key departure arrival)\<rparr>)"
proof -
  from Treap_insert_node[of p "treap g" "canonical_key departure arrival"] obtain root'
    where r: "insertNode p (treap g) (canonical_key departure arrival) = Inr root'"
    by (auto simp: insertNode_def)
  then show ?thesis
    by (simp add: addLocations_def canonical_key_def Let_def)
qed

lemma addRoutes_result:
  "\<exists>g'. addRoutes rs g = Inr g' \<and>
     locations g' = locations g @ map route_key rs \<and>
     trie g' = foldl Trie_insert (trie g) (map route_key rs) \<and>
     insertNodes (map route_draw rs) (treap g) = Inr (treap g')"
proof (induction rs arbitrary: g)
  case Nil
  show ?case by simp
next
  case (Cons route rs)
  obtain p departure arrival where route: "route = (p, departure, arrival)" by (cases route)
  from addLocations_result[of p g departure arrival] obtain root' where
    r: "insertNode p (treap g) (canonical_key departure arrival) = Inr root'" and
    a: "addLocations p [departure, arrival] g =
       Inr (PyNone, \<lparr>locations = locations g @ [canonical_key departure arrival],
                    treap = root',
                    trie = Trie_insert (trie g) (canonical_key departure arrival)\<rparr>)"
    by blast
  let ?g1 = "\<lparr>locations = locations g @ [canonical_key departure arrival],
                    treap = root',
                    trie = Trie_insert (trie g) (canonical_key departure arrival)\<rparr>"
  from Cons.IH[of ?g1] obtain g' where g': "addRoutes rs ?g1 = Inr g'"
     "locations g' = locations ?g1 @ map route_key rs"
     "trie g' = foldl Trie_insert (trie ?g1) (map route_key rs)"
     "insertNodes (map route_draw rs) (treap ?g1) = Inr (treap g')" by blast
  have "addRoutes (route # rs) g = Inr g'" using a g'(1) by (simp add: route)
  then show ?case using g'(2,3,4) r
    by (simp add: route)
qed

lemma reachable_graph:
  assumes "addRoutes rs LocationGraph_init = Inr g"
  shows "locations g = map route_key rs"
    and "trie g = foldl Trie_insert Trie_init (map route_key rs)"
    and "insertNodes (map route_draw rs) Treap_init = Inr (treap g)"
    and "is_dict (trie g)"
proof -
  from addRoutes_result[of rs LocationGraph_init] assms
  have *: "locations g = locations LocationGraph_init @ map route_key rs"
     "trie g = foldl Trie_insert (trie LocationGraph_init) (map route_key rs)"
     "insertNodes (map route_draw rs) (treap LocationGraph_init) = Inr (treap g)"
    by auto
  show "locations g = map route_key rs" using *(1) by (simp add: LocationGraph_init_def)
  show t: "trie g = foldl Trie_insert Trie_init (map route_key rs)"
    using *(2) by (simp add: LocationGraph_init_def)
  show "insertNodes (map route_draw rs) Treap_init = Inr (treap g)"
    using *(3) by (simp add: LocationGraph_init_def)
  show "is_dict (trie g)" unfolding t by (rule is_dict_inserts) simp
qed

lemma autocomplete_sound:
  assumes "addRoutes rs LocationGraph_init = Inr g" and "r \<in> set (autocomplete g prefix)"
  shows "(\<exists>k \<in> set (locations g). r = lower k) \<and> startswith r (lower prefix)"
proof -
  note rg = reachable_graph[OF assms(1)]
  have "accepts (trie g) r \<and> startswith r (lower prefix)"
    using Trie_search_sound[OF rg(4)] assms(2) by (simp add: autocomplete_def)
  then show ?thesis
    unfolding rg(1) using rg(2) by (simp add: accepts_inserts)
qed

lemma Treap_search_subset:
  "r \<in> set (Treap_search t prefix) \<Longrightarrow> r \<in> set (keys t) \<and> startswith r prefix"
  by (induction t) (auto split: if_splits)

lemma keys_reachable:
  assumes "addRoutes rs LocationGraph_init = Inr g"
  shows "mset (keys (treap g)) = mset (locations g)"
proof -
  note rg = reachable_graph[OF assms]
  have "mset (map fst (inorder (treap g))) = mset (map fst (map (\<lambda>d. (snd d, fst d)) (map route_draw rs)))"
    using insertNodes_mset[OF rg(3)] by (simp add: Treap_init_def del: map_map)
  moreover have "map fst (map (\<lambda>d. (snd d, fst d)) (map route_draw rs)) = map route_key rs"
    by (induction rs) auto
  ultimately have "mset (map fst (inorder (treap g))) = mset (map route_key rs)"
    by (simp only:)
  then show ?thesis by (simp only: keys_def rg(1))
qed

lemma autocomplete_after_eq:
  "autocomplete_after rs prefix =
     Inr (Trie_search (foldl Trie_insert Trie_init (map route_key rs)) prefix)"
proof -
  from addRoutes_result[of rs LocationGraph_init] obtain g
    where g: "addRoutes rs LocationGraph_init = Inr g" by blast
  show ?thesis
    using reachable_graph(2)[OF g] by (simp add: autocomplete_after_def g autocomplete_def)
qed

lemma searchLocations_after_eq:
  "\<exists>t. insertNodes (map route_draw rs) Treap_init = Inr t \<and>
       mset (keys t) = mset (map route_key rs) \<and>
       searchLocations_after rs prefix = Inr (Treap_search t prefix)"
proof -
  from addRoutes_result[of rs LocationGraph_init] obtain g
    where g: "addRoutes rs LocationGraph_init = Inr g" by blast
  show ?thesis
    using reachable_graph(1,3)[OF g] keys_reachable[OF g]
    by (simp add: searchLocations_after_def g searchLocations_def searchPrefix_def)
qed

lemma distinct_count_list: "distinct xs \<Longrightarrow> count_list xs x \<le> 1"
  by (induction xs) auto

lemma search_loop_append:
  "Trie_search_loop t (u @ v) =
     (case Trie_search_loop t u of None \<Rightarrow> None | Some n \<Rightarrow> Trie_search_loop n v)"
proof (induction u arbitrary: t)
  case Nil
  show ?case by simp
next
  case (Cons c u)
  obtain cs e where t: "t = TrieNode cs e" by (cases t)
  show ?case by (simp add: t Cons.IH split: option.splits)
qed

lemma scenario_new:
  "Trie_search (foldl Trie_insert Trie_init
      [''New York -> Boston'', ''New Jersey -> Miami'', ''Newark -> LA'']) ''new''
   = [''new york -> boston'', ''new jersey -> miami'', ''newark -> la'']"
  by code_simp

lemma scenario_newa:
  "Trie_search (foldl Trie_insert Trie_init
      [''New York -> Boston'', ''New Jersey -> Miami'', ''Newark -> LA'']) ''newa''
   = [''newark -> la'']"
  by code_simp

lemma insert_loop_present:
  "accepts t w \<Longrightarrow> Trie_insert_loop t w = t"
proof (induction w arbitrary: t)
  case Nil
  obtain cs e where t: "t = TrieNode cs e" by (cases t)
  show ?case using Nil by (simp add: t)
next
  case (Cons c w)
  obtain cs e where t: "t = TrieNode cs e" by (cases t)
  from Cons.prems obtain child where m: "map_of cs c = Some child" and a: "accepts child w"
    by (auto simp: t split: option.splits)
  have "Trie_insert_loop child w = child" using a by (rule Cons.IH)
  then show ?case using m by (simp add: t update_triv)
qed

section \<open>The claims\<close>

text \<open>
  Claim C1, as the code has it. After the routes (New York, Boston), (New Jersey, Miami)
  and (Newark, LA) are added to a fresh graph, whatever the three priority draws, the
  canonical keys are \<open>New York -> Boston\<close>, \<open>New Jersey -> Miami\<close> and \<open>Newark -> LA\<close>,
  \<open>autocomplete('new')\<close> returns the lower-cased forms of the three keys, in the order
  of insertion, and \<open>autocomplete('newa')\<close> returns only the lower-cased form of
  \<open>Newark -> LA\<close>.
\<close>

theorem scenario_autocomplete_lower_case:
  "map route_key [(p1, ''New York'', ''Boston''), (p2, ''New Jersey'', ''Miami''),
                  (p3, ''Newark'', ''LA'')]
     = [''New York -> Boston'', ''New Jersey -> Miami'', ''Newark -> LA'']
   \<and> autocomplete_after [(p1, ''New York'', ''Boston''), (p2, ''New Jersey'', ''Miami''),
                          (p3, ''Newark'', ''LA'')] ''new''
     = Inr [lower ''New York -> Boston'', lower ''New Jersey -> Miami'', lower ''Newark -> LA'']
   \<and> autocomplete_after [(p1, ''New York'', ''Boston''), (p2, ''New Jersey'', ''Miami''),
                          (p3, ''Newark'', ''LA'')] ''newa''
     = Inr [lower ''Newark -> LA'']
   \<and> lower ''New York -> Boston'' = ''new york -> boston''
   \<and> lower ''New Jersey -> Miami'' = ''new jersey -> miami''
   \<and> lower ''Newark -> LA'' = ''newark -> la''"
proof -
  have k: "map route_key [(p1, ''New York'', ''Boston''), (p2, ''New Jersey'', ''Miami''),
                  (p3, ''Newark'', ''LA'')]
     = [''New York -> Boston'', ''New Jersey -> Miami'', ''Newark -> LA'']"
    by (simp add: canonical_key_def)
  have l1: "lower ''New York -> Boston'' = ''new york -> boston''" by code_simp
  have l2: "lower ''New Jersey -> Miami'' = ''new jersey -> miami''" by code_simp
  have l3: "lower ''Newark -> LA'' = ''newark -> la''" by code_simp
  show ?thesis
    unfolding autocomplete_after_eq k scenario_new scenario_newa l1 l2 l3 by simp
qed

text \<open>
  Claim C1 as stated fails: in the scenario \<open>autocomplete('newa')\<close> returns
  \<open>newark -> la\<close>, not the canonical key \<open>Newark -> LA\<close>.
\<close>

theorem scenario_autocomplete_counterexample:
  "autocomplete_after [(5, ''New York'', ''Boston''), (7, ''New Jersey'', ''Miami''),
                       (3, ''Newark'', ''LA'')] ''newa'' = Inr [''newark -> la'']
   \<and> autocomplete_after [(5, ''New York'', ''Boston''), (7, ''New Jersey'', ''Miami''),
                       (3, ''Newark'', ''LA'')] ''newa'' \<noteq> Inr [''Newark -> LA'']"
  by code_simp

text \<open>
  Claim C2. \<open>searchPrefix\<close> returns the keys on the single descent path that begin
  with the prefix, in the order of the path; \<open>startswith\<close> is the literal prefix check;
  the search of an empty tree is empty, and at a node the search appends the node's key
  when it begins with the prefix and then descends into the left child when the prefix
  is below the node's key and into the right child otherwise.
\<close>

theorem searchPrefix_single_path:
  "searchPrefix root prefix = spec_searchPrefix root prefix
   \<and> (startswith k prefix \<longleftrightarrow> (\<exists>u. k = prefix @ u))
   \<and> searchPrefix TNone prefix = []
   \<and> searchPrefix (TreapNode k q l r) prefix =
       (if startswith k prefix then [k] else []) @
       (if prefix < k then searchPrefix l prefix else searchPrefix r prefix)"
  by (simp add: searchPrefix_def spec_searchPrefix_def Treap_search_descent startswith_iff
      literal_prefix_iff)

text \<open>
  Claim C3. Every sequence of \<open>insertNode\<close> calls on an empty treap, whatever the
  priority draws, returns a tree (no call raises) whose in-order keys are sorted in
  non-decreasing order, in which every node's left subtree holds only keys at most its
  key and its right subtree only keys at least its key, and which holds exactly the
  inserted keys with their draws. One more insertion keeps the order and places the new
  node after every node whose key is at most the new key: an equal key goes to the
  right.
\<close>

theorem bst_invariant:
  "\<exists>t. insertNodes draws Treap_init = Inr t
     \<and> sorted (keys t)
     \<and> bst t
     \<and> mset (inorder t) = mset (map (\<lambda>d. (snd d, fst d)) draws)
     \<and> (\<forall>p loc. \<exists>t'. insertNode p t loc = Inr t' \<and> sorted (keys t') \<and>
           inorder t' = filter (\<lambda>kp. fst kp \<le> loc) (inorder t) @ (loc, p) #
                        filter (\<lambda>kp. loc < fst kp) (inorder t))"
proof -
  from insertNodes_total obtain t where t: "insertNodes draws Treap_init = Inr t" by blast
  have b: "bst t" using insertNodes_bst[OF _ t] by (simp add: Treap_init_def)
  have m: "mset (inorder t) = mset (map (\<lambda>d. (snd d, fst d)) draws)"
    using insertNodes_mset[OF t] by (simp add: Treap_init_def)
  have step: "\<exists>t'. insertNode p t loc = Inr t' \<and> sorted (keys t') \<and>
           inorder t' = filter (\<lambda>kp. fst kp \<le> loc) (inorder t) @ (loc, p) #
                        filter (\<lambda>kp. loc < fst kp) (inorder t)" for p loc
  proof -
    from Treap_insert_node[of p t loc] obtain t' where t': "Treap_insert p t loc = Inr t'" by blast
    have "sorted (keys t')" using Treap_insert_bst[OF b t'] by (simp add: bst_iff_sorted)
    then show ?thesis using Treap_insert_inorder[OF b t'] t' by (simp add: insertNode_def)
  qed
  show ?thesis using t b m step by (auto simp: bst_iff_sorted)
qed

text \<open>
  Claim C3 at three insertions, the third key equal to the first and rotated above it.
\<close>

theorem bst_invariant_witness:
  "insertNodes [(5, ''b''), (9, ''a''), (7, ''b'')] Treap_init
     = Inr (TreapNode ''a'' 9 TNone (TreapNode ''b'' 7 (TreapNode ''b'' 5 TNone TNone) TNone))
   \<and> bst (TreapNode ''a'' 9 TNone (TreapNode ''b'' 7 (TreapNode ''b'' 5 TNone TNone) TNone))
   \<and> sorted (keys (TreapNode ''a'' 9 TNone (TreapNode ''b'' 7 (TreapNode ''b'' 5 TNone TNone) TNone)))
   \<and> inorder (TreapNode ''a'' 9 TNone (TreapNode ''b'' 7 (TreapNode ''b'' 5 TNone TNone) TNone))
       = [(''a'', 9), (''b'', 5), (''b'', 7)]"
proof -
  have e: "insertNodes [(5, ''b''), (9, ''a''), (7, ''b'')] Treap_init
     = Inr (TreapNode ''a'' 9 TNone (TreapNode ''b'' 7 (TreapNode ''b'' 5 TNone TNone) TNone))"
    by code_simp
  from bst_invariant[of "[(5, ''b''), (9, ''a''), (7, ''b'')]"] e show ?thesis by auto
qed

text \<open>
  Claim C4. Every sequence of \<open>insertNode\<close> calls on an empty treap, whatever the
  priority draws, returns a tree in which every node's priority is at least the
  priority of each of its children, and whose priorities are the draws. Where the
  insertion went left and the new left child has a larger priority than the node, the
  result is the right rotation of the node; where it went right and the new right child
  has a larger priority, the result is the left rotation.
\<close>

theorem heap_invariant:
  "(\<exists>t. insertNodes draws Treap_init = Inr t \<and> heap t \<and> prios t = mset (map fst draws))
   \<and> (loc < k \<and> Treap_insert p l loc = Inr l' \<and> priority_of l' = Some lq \<and> q < lq \<longrightarrow>
        Treap_insert p (TreapNode k q l r) loc = rotateRight (TreapNode k q l' r))
   \<and> (\<not> loc < k \<and> Treap_insert p r loc = Inr r' \<and> priority_of r' = Some rq \<and> q < rq \<longrightarrow>
        Treap_insert p (TreapNode k q l r) loc = rotateLeft (TreapNode k q l r'))"
proof -
  from insertNodes_total obtain t where t: "insertNodes draws Treap_init = Inr t" by blast
  have h: "heap t" using insertNodes_heap[OF _ t] by (simp add: Treap_init_def)
  have "mset (map snd (inorder t)) = mset (map snd (map (\<lambda>d. (snd d, fst d)) draws))"
    using insertNodes_mset[OF t] by (simp add: Treap_init_def del: map_map)
  then have m: "prios t = mset (map fst draws)" by (simp add: prios_inorder comp_def)
  have rr: "Treap_insert p (TreapNode k q l r) loc = rotateRight (TreapNode k q l' r)"
    if "loc < k" "Treap_insert p l loc = Inr l'" "priority_of l' = Some lq" "q < lq"
    using that by (cases l') simp_all
  have rl: "Treap_insert p (TreapNode k q l r) loc = rotateLeft (TreapNode k q l r')"
    if "\<not> loc < k" "Treap_insert p r loc = Inr r'" "priority_of r' = Some rq" "q < rq"
    using that by (cases r') simp_all
  show ?thesis using t h m rr rl by blast
qed

text \<open>
  Claim C4 at three insertions, with one right rotation and one left rotation.
\<close>

theorem heap_invariant_witness:
  "(\<exists>t. insertNodes [(5, ''b''), (9, ''a''), (7, ''b'')] Treap_init = Inr t \<and> heap t
        \<and> prios t = mset [5, 9, 7])
   \<and> (''a'' < ''b'' \<and> Treap_insert 9 TNone ''a'' = Inr (TreapNode ''a'' 9 TNone TNone)
        \<and> priority_of (TreapNode ''a'' 9 TNone TNone) = Some 9 \<and> (5::int) < 9)
   \<and> Treap_insert 9 (TreapNode ''b'' 5 TNone TNone) ''a''
        = rotateRight (TreapNode ''b'' 5 (TreapNode ''a'' 9 TNone TNone) TNone)
   \<and> (\<not> ''b'' < ''b'' \<and> Treap_insert 7 TNone ''b'' = Inr (TreapNode ''b'' 7 TNone TNone)
        \<and> priority_of (TreapNode ''b'' 7 TNone TNone) = Some 7 \<and> (5::int) < 7)
   \<and> Treap_insert 7 (TreapNode ''b'' 5 TNone TNone) ''b''
        = rotateLeft (TreapNode ''b'' 5 TNone (TreapNode ''b'' 7 TNone TNone))"
proof -
  have h1: "''a'' < ''b'' \<and> Treap_insert 9 TNone ''a'' = Inr (TreapNode ''a'' 9 TNone TNone)
        \<and> priority_of (TreapNode ''a'' 9 TNone TNone) = Some 9 \<and> (5::int) < 9"
    by simp
  have h2: "\<not> ''b'' < ''b'' \<and> Treap_insert 7 TNone ''b'' = Inr (TreapNode ''b'' 7 TNone TNone)
        \<and> priority_of (TreapNode ''b'' 7 TNone TNone) = Some 7 \<and> (5::int) < 7"
    by simp
  note a = heap_invariant[where draws = "[(5, ''b''), (9, ''a''), (7, ''b'')]"
      and loc = "''a''" and k = "''b''" and p = 9 and l = TNone and r = TNone and q = 5
      and l' = "TreapNode ''a'' 9 TNone TNone" and lq = 9]
  note b = heap_invariant[where draws = "[(5, ''b''), (9, ''a''), (7, ''b'')]"
      and loc = "''b''" and k = "''b''" and p = 7 and l = TNone and r = TNone and q = 5
      and r' = "TreapNode ''b'' 7 TNone TNone" and rq = 7]
  show ?thesis using a b h1 h2 by simp
qed

text \<open>
  Claim C5, as the code has it. For every departure and arrival, \<open>addLocations\<close> builds
  the canonical key, inserts it into the treap (the keys of the treap gain exactly this
  key) and into the trie (the trie then holds its lower-cased form), appends it to the
  list of locations, and returns \<open>None\<close>.
\<close>

theorem addLocations_returns_None:
  "\<exists>root'. insertNode p (treap g) (canonical_key departure arrival) = Inr root'
     \<and> canonical_key departure arrival = departure @ '' -> '' @ arrival
     \<and> addLocations p [departure, arrival] g =
         Inr (PyNone, \<lparr>locations = locations g @ [canonical_key departure arrival],
                      treap = root',
                      trie = Trie_insert (trie g) (canonical_key departure arrival)\<rparr>)
     \<and> mset (keys root') = add_mset (canonical_key departure arrival) (mset (keys (treap g)))
     \<and> accepts (Trie_insert (trie g) (canonical_key departure arrival))
                (lower (canonical_key departure arrival))"
proof -
  from addLocations_result[of p g departure arrival] obtain root' where
    r: "insertNode p (treap g) (canonical_key departure arrival) = Inr root'" and
    a: "addLocations p [departure, arrival] g =
         Inr (PyNone, \<lparr>locations = locations g @ [canonical_key departure arrival],
                      treap = root',
                      trie = Trie_insert (trie g) (canonical_key departure arrival)\<rparr>)"
    by blast
  have "mset (map fst (inorder root'))
        = mset (map fst ((canonical_key departure arrival, p) # inorder (treap g)))"
    using Treap_insert_mset[of p "treap g" "canonical_key departure arrival" root'] r
    by (simp add: insertNode_def del: list.map)
  then have m: "mset (keys root')
        = add_mset (canonical_key departure arrival) (mset (keys (treap g)))"
    by (simp add: keys_def)
  have t: "accepts (Trie_insert (trie g) (canonical_key departure arrival))
                (lower (canonical_key departure arrival))"
    by (simp add: Trie_insert_def accepts_insert_loop)
  show ?thesis using r a m t by (simp add: canonical_key_def)
qed

text \<open>
  Claim C5 as stated fails: the call returns \<open>None\<close>, not the canonical key.
\<close>

theorem addLocations_return_counterexample:
  "map_sum id fst (addLocations 5 [''New York'', ''Boston''] LocationGraph_init) = Inr PyNone
   \<and> map_sum id fst (addLocations 5 [''New York'', ''Boston''] LocationGraph_init)
       \<noteq> Inr (PyStr ''New York -> Boston'')"
  by code_simp

text \<open>
  Claim C6, as the code has it. For every word \<open>W\<close> inserted into a fresh trie and
  every \<open>p\<close> such that \<open>p.lower()\<close> is a literal prefix of \<open>W.lower()\<close>,
  \<open>search(p)\<close> contains \<open>W.lower()\<close>. The condition is on the two lower-cased
  strings, which are what \<open>insert\<close> stores and what \<open>search\<close> walks; the proof uses
  of \<open>lower\<close> only that it is a function of the whole string, not that it works
  character by character.
\<close>

theorem trie_completeness_lower:
  assumes "W \<in> set ws" and "startswith (lower W) (lower p)"
  shows "lower W \<in> set (Trie_search (foldl Trie_insert Trie_init ws) p)"
proof -
  have "accepts (foldl Trie_insert Trie_init ws) (lower W)"
    using assms(1) by (auto simp: accepts_inserts)
  then show ?thesis using assms(2) by (rule Trie_search_complete)
qed

text \<open>
  Claim C6 at the words \<open>Ab\<close> and \<open>c\<close> and the prefix \<open>A\<close>.
\<close>

theorem trie_completeness_lower_witness:
  "''Ab'' \<in> set [''Ab'', ''c''] \<and> startswith (lower ''Ab'') (lower ''A'')
   \<and> lower ''Ab'' \<in> set (Trie_search (foldl Trie_insert Trie_init [''Ab'', ''c'']) ''A'')"
proof -
  have h1: "''Ab'' \<in> set [''Ab'', ''c'']" by simp
  have h2: "startswith (lower ''Ab'') (lower ''A'')" by code_simp
  show ?thesis using trie_completeness_lower[OF h1 h2] h1 h2 by simp
qed

text \<open>
  Claim C6 as stated fails: after \<open>A\<close> is inserted, \<open>search('a')\<close> does not contain
  \<open>A\<close>.
\<close>

theorem trie_completeness_counterexample:
  "''A'' \<in> set [''A''] \<and> startswith (lower ''A'') (lower ''a'')
   \<and> ''A'' \<notin> set (Trie_search (foldl Trie_insert Trie_init [''A'']) ''a'')"
  by code_simp

text \<open>
  Claim C7, as the code has it. Every string that \<open>search(p)\<close> returns on a trie built
  by insertions begins with the lower-cased \<open>p\<close> (so it begins with \<open>p\<close> when case is
  ignored) and is the lower-cased form of an inserted word.
\<close>

theorem trie_soundness_lower:
  assumes "r \<in> set (Trie_search (foldl Trie_insert Trie_init ws) p)"
  shows "startswith r (lower p) \<and> startswith (lower r) (lower p) \<and> (\<exists>w \<in> set ws. r = lower w)"
proof -
  have d: "is_dict (foldl Trie_insert Trie_init ws)" by (rule is_dict_inserts) simp
  from Trie_search_sound[OF d assms]
  have a: "accepts (foldl Trie_insert Trie_init ws) r" and s: "startswith r (lower p)" by simp_all
  from a obtain w where w: "w \<in> set ws" "r = lower w" by (auto simp: accepts_inserts)
  then have "lower r = r" by (simp add: lower_idem)
  then show ?thesis using s w by auto
qed

text \<open>
  Claim C7 at the words \<open>Ab\<close> and \<open>c\<close>, the prefix \<open>A\<close> and the result \<open>ab\<close>.
\<close>

theorem trie_soundness_lower_witness:
  "''ab'' \<in> set (Trie_search (foldl Trie_insert Trie_init [''Ab'', ''c'']) ''A'')
   \<and> startswith ''ab'' (lower ''A'') \<and> startswith (lower ''ab'') (lower ''A'')
   \<and> (\<exists>w \<in> set [''Ab'', ''c'']. ''ab'' = lower w)"
proof -
  have h: "''ab'' \<in> set (Trie_search (foldl Trie_insert Trie_init [''Ab'', ''c'']) ''A'')"
    by code_simp
  show ?thesis using trie_soundness_lower[OF h] h by simp
qed

text \<open>
  Claim C7 as stated fails: after \<open>A\<close> is inserted, \<open>search('a')\<close> returns \<open>a\<close>,
  which was not inserted.
\<close>

theorem trie_soundness_counterexample:
  "''a'' \<in> set (Trie_search (foldl Trie_insert Trie_init [''A'']) ''a'') \<and> ''a'' \<notin> set [''A'']"
  by code_simp

text \<open>
  Claim C8. When a route that was added before is added again, \<open>autocomplete\<close> returns
  for every prefix the result it returned before; no string occurs twice in that
  result; the trie is the same trie; and inserting a word twice in a row into any trie
  gives the trie of one insertion.
\<close>

theorem duplicate_route_idempotent:
  assumes "(p0, departure, arrival) \<in> set rs"
  shows "autocomplete_after (rs @ [(p, departure, arrival)]) prefix = autocomplete_after rs prefix
   \<and> (\<exists>res. autocomplete_after (rs @ [(p, departure, arrival)]) prefix = Inr res
          \<and> distinct res \<and> count_list res x \<le> 1)
   \<and> foldl Trie_insert Trie_init (map route_key (rs @ [(p, departure, arrival)]))
       = foldl Trie_insert Trie_init (map route_key rs)
   \<and> Trie_insert (Trie_insert t word) word = Trie_insert t word"
proof -
  let ?t = "foldl Trie_insert Trie_init (map route_key rs)"
  let ?k = "canonical_key departure arrival"
  have "\<exists>w \<in> set (map route_key rs). lower ?k = lower w"
    using assms by (intro bexI[of _ "route_key (p0, departure, arrival)"]) force+
  then have "accepts ?t (lower ?k)" by (simp only: accepts_inserts) simp
  then have same: "Trie_insert ?t ?k = ?t" by (simp add: Trie_insert_def insert_loop_present)
  then have shape: "foldl Trie_insert Trie_init (map route_key (rs @ [(p, departure, arrival)])) = ?t"
    by simp
  have d: "is_dict ?t" by (rule is_dict_inserts) simp
  have dist: "distinct (Trie_search ?t prefix)" using d by (rule Trie_search_distinct)
  have idem: "Trie_insert (Trie_insert t word) word = Trie_insert t word"
    by (simp add: Trie_insert_def insert_loop_idem)
  have cnt: "count_list (Trie_search ?t prefix) x \<le> 1"
    using dist by (rule distinct_count_list)
  show ?thesis
    unfolding autocomplete_after_eq shape using dist idem cnt
    by simp
qed

text \<open>
  Claim C8 at the route (A, B) added twice.
\<close>

theorem duplicate_route_idempotent_witness:
  "(5::int, ''A'', ''B'') \<in> set [(5, ''A'', ''B'')]
   \<and> autocomplete_after ([(5, ''A'', ''B'')] @ [(7, ''A'', ''B'')]) ''a''
       = autocomplete_after [(5, ''A'', ''B'')] ''a''
   \<and> autocomplete_after ([(5, ''A'', ''B'')] @ [(7, ''A'', ''B'')]) ''a'' = Inr [''a -> b'']
   \<and> Trie_insert (Trie_insert Trie_init ''A'') ''A'' = Trie_insert Trie_init ''A''"
proof -
  have h: "(5::int, ''A'', ''B'') \<in> set [(5, ''A'', ''B'')]" by simp
  have e: "autocomplete_after ([(5, ''A'', ''B'')] @ [(7, ''A'', ''B'')]) ''a'' = Inr [''a -> b'']"
    by code_simp
  note t = duplicate_route_idempotent[OF h, of 7 "''a''" "''a -> b''" Trie_init "''A''"]
  have t1: "autocomplete_after ([(5, ''A'', ''B'')] @ [(7, ''A'', ''B'')]) ''a''
       = autocomplete_after [(5, ''A'', ''B'')] ''a''"
    using t by (rule conjunct1)
  have t4: "Trie_insert (Trie_insert Trie_init ''A'') ''A'' = Trie_insert Trie_init ''A''"
    using t by (elim conjE)
  show ?thesis by (intro conjI h t1 e t4)
qed

text \<open>
  Claim C9. After any sequence of \<open>addLocations\<close> calls on a fresh graph, neither query
  raises; \<open>autocomplete\<close> returns the empty list when no stored key begins with the
  prefix (case ignored), and \<open>searchLocations\<close> returns the empty list when no stored
  key begins with the prefix. The trie search returns the empty list as soon as a
  character of the lower-cased prefix has no child, and the treap search of an empty
  tree is empty.
\<close>

theorem no_match_returns_empty:
  "((\<forall>route \<in> set rs. \<not> startswith (lower (route_key route)) (lower prefix))
        \<longrightarrow> autocomplete_after rs prefix = Inr [])
   \<and> ((\<forall>route \<in> set rs. \<not> startswith (route_key route) prefix)
        \<longrightarrow> searchLocations_after rs prefix = Inr [])
   \<and> (\<exists>res. autocomplete_after rs prefix = Inr res)
   \<and> (\<exists>res. searchLocations_after rs prefix = Inr res)
   \<and> (lower prefix = u @ c # v \<and> Trie_search_loop t u = Some (TrieNode cs e) \<and> map_of cs c = None
        \<longrightarrow> Trie_search t prefix = [])
   \<and> searchPrefix Treap_init prefix = []"
proof -
  let ?t = "foldl Trie_insert Trie_init (map route_key rs)"
  have d: "is_dict ?t" by (rule is_dict_inserts) simp
  have a: "autocomplete_after rs prefix = Inr []"
    if no: "\<forall>route \<in> set rs. \<not> startswith (lower (route_key route)) (lower prefix)"
  proof -
    have "Trie_search ?t prefix = []"
    proof (rule ccontr)
      assume "Trie_search ?t prefix \<noteq> []"
      then obtain r where r: "r \<in> set (Trie_search ?t prefix)" by (cases "Trie_search ?t prefix") auto
      from Trie_search_sound[OF d r] have "accepts ?t r" "startswith r (lower prefix)" by simp_all
      then obtain route where "route \<in> set rs" "startswith (lower (route_key route)) (lower prefix)"
        by (auto simp: accepts_inserts)
      then show False using no by blast
    qed
    then show ?thesis by (simp add: autocomplete_after_eq)
  qed
  from searchLocations_after_eq[of rs prefix] obtain tr where
    tr: "mset (keys tr) = mset (map route_key rs)"
        "searchLocations_after rs prefix = Inr (Treap_search tr prefix)" by blast
  have b: "searchLocations_after rs prefix = Inr []"
    if no: "\<forall>route \<in> set rs. \<not> startswith (route_key route) prefix"
  proof -
    have "Treap_search tr prefix = []"
    proof (rule ccontr)
      assume "Treap_search tr prefix \<noteq> []"
      then obtain r where r: "r \<in> set (Treap_search tr prefix)" by (cases "Treap_search tr prefix") auto
      from Treap_search_subset[OF r] have "r \<in> set (keys tr)" "startswith r prefix" by simp_all
      moreover have "set (keys tr) = set (map route_key rs)" using tr(1) by (rule mset_eq_setD)
      ultimately obtain route where "route \<in> set rs" "startswith (route_key route) prefix" by auto
      then show False using no by blast
    qed
    then show ?thesis by (simp add: tr(2))
  qed
  have c: "Trie_search t prefix = []"
    if "lower prefix = u @ c # v" "Trie_search_loop t u = Some (TrieNode cs e)" "map_of cs c = None"
    using that by (simp add: Trie_search_def search_loop_append)
  show ?thesis
    using a b c tr(2) by (simp add: autocomplete_after_eq searchPrefix_def Treap_init_def)
qed

text \<open>
  Claim C9 at the route (A, B) and prefixes that match nothing.
\<close>

theorem no_match_returns_empty_witness:
  "\<not> startswith (lower (route_key (5, ''A'', ''B''))) (lower ''X'')
   \<and> autocomplete_after [(5, ''A'', ''B'')] ''X'' = Inr []
   \<and> \<not> startswith (route_key (5, ''A'', ''B'')) ''a''
   \<and> searchLocations_after [(5, ''A'', ''B'')] ''a'' = Inr []
   \<and> (lower ''aX'' = ''a'' @ CHR ''x'' # [] \<and>
      Trie_search_loop (Trie_insert Trie_init ''ab'') ''a''
        = Some (TrieNode [(CHR ''b'', TrieNode [] True)] False)
      \<and> map_of [(CHR ''b'', TrieNode [] True)] CHR ''x'' = None)
   \<and> Trie_search (Trie_insert Trie_init ''ab'') ''aX'' = []"
proof -
  have g1: "\<not> startswith (lower (route_key (5, ''A'', ''B''))) (lower ''X'')"
    by code_simp
  have g2: "\<not> startswith (route_key (5, ''A'', ''B'')) ''a''"
    by code_simp
  have h1: "\<forall>route \<in> set [(5, ''A'', ''B'')]. \<not> startswith (lower (route_key route)) (lower ''X'')"
    using g1 by (simp only: list.set ball_simps simp_thms)
  have h2: "\<forall>route \<in> set [(5, ''A'', ''B'')]. \<not> startswith (route_key route) ''a''"
    using g2 by (simp only: list.set ball_simps simp_thms)
  have h3: "lower ''aX'' = ''a'' @ CHR ''x'' # [] \<and>
      Trie_search_loop (Trie_insert Trie_init ''ab'') ''a''
        = Some (TrieNode [(CHR ''b'', TrieNode [] True)] False)
      \<and> map_of [(CHR ''b'', TrieNode [] True)] CHR ''x'' = None"
    by code_simp
  note a = no_match_returns_empty[where rs = "[(5, ''A'', ''B'')]" and prefix = "''X''"]
  note b = no_match_returns_empty[where rs = "[(5, ''A'', ''B'')]" and prefix = "''a''"]
  note c = no_match_returns_empty[where prefix = "''aX''" and u = "''a''" and c = "CHR ''x''"
      and v = "[]" and t = "Trie_insert Trie_init ''ab''"
      and cs = "[(CHR ''b'', TrieNode [] True)]" and e = False]
  have r1: "autocomplete_after [(5, ''A'', ''B'')] ''X'' = Inr []"
    by (rule mp[OF conjunct1[OF a] h1])
  have r2: "searchLocations_after [(5, ''A'', ''B'')] ''a'' = Inr []"
    by (rule mp[OF conjunct1[OF conjunct2[OF b]] h2])
  have r3: "Trie_search (Trie_insert Trie_init ''ab'') ''aX'' = []"
    by (rule mp[OF conjunct1[OF conjunct2[OF conjunct2[OF conjunct2[OF conjunct2[OF c]]]]] h3])
  show ?thesis by (intro conjI g1 r1 g2 r2 h3 r3)
qed

text \<open>
  Claim C10. After any sequence of \<open>addLocations\<close> calls on a fresh graph, every
  string that \<open>autocomplete\<close> returns is unchanged by lower-casing, character by
  character, and is the lower-cased form of an added route; a key that lower-casing
  changes is never returned.
\<close>

theorem autocomplete_lower_case:
  "(\<forall>r \<in> set (Trie_search (foldl Trie_insert Trie_init (map route_key rs)) prefix).
       lower r = r \<and> (\<forall>ch \<in> set r. lower_char ch = ch)
       \<and> (\<exists>route \<in> set rs. r = lower (route_key route)))
   \<and> autocomplete_after rs prefix
       = Inr (Trie_search (foldl Trie_insert Trie_init (map route_key rs)) prefix)
   \<and> (lower k \<noteq> k \<longrightarrow>
        k \<notin> set (Trie_search (foldl Trie_insert Trie_init (map route_key rs)) prefix))"
proof -
  let ?t = "foldl Trie_insert Trie_init (map route_key rs)"
  have d: "is_dict ?t" by (rule is_dict_inserts) simp
  have low: "lower r = r \<and> (\<forall>ch \<in> set r. lower_char ch = ch)
       \<and> (\<exists>route \<in> set rs. r = lower (route_key route))"
    if r: "r \<in> set (Trie_search ?t prefix)" for r
  proof -
    from Trie_search_sound[OF d r] have "accepts ?t r" by simp
    then obtain route where route: "route \<in> set rs" "r = lower (route_key route)"
      by (auto simp: accepts_inserts)
    then have l: "lower r = r" by (simp add: lower_idem)
    then have "\<forall>ch \<in> set r. lower_char ch = ch"
      unfolding lower_def by (simp add: map_idI[symmetric] map_eq_conv[where g = "\<lambda>x. x", simplified])
    then show ?thesis using l route by blast
  qed
  then have "lower k \<noteq> k \<longrightarrow> k \<notin> set (Trie_search ?t prefix)" by blast
  then show ?thesis using low by (simp add: autocomplete_after_eq)
qed

text \<open>
  Claim C10 at the route (A, B) and the prefix \<open>a\<close>.
\<close>

theorem autocomplete_lower_case_witness:
  "autocomplete_after [(5, ''A'', ''B'')] ''a'' = Inr [''a -> b'']
   \<and> lower ''a -> b'' = ''a -> b''
   \<and> ''a -> b'' = lower (route_key (5, ''A'', ''B''))
   \<and> lower ''A -> B'' \<noteq> ''A -> B''
   \<and> ''A -> B'' \<notin> set [''a -> b'']"
proof -
  have e: "Trie_search (foldl Trie_insert Trie_init (map route_key [(5, ''A'', ''B'')])) ''a''
           = [''a -> b'']"
    by code_simp
  have h: "lower ''A -> B'' \<noteq> ''A -> B''" by code_simp
  note t = autocomplete_lower_case[of "[(5, ''A'', ''B'')]" "''a''" "''A -> B''"]
  have r1: "autocomplete_after [(5, ''A'', ''B'')] ''a'' = Inr [''a -> b'']"
    by (rule conjunct1[OF conjunct2[OF t], unfolded e])
  have r2: "\<forall>r \<in> set [''a -> b'']. lower r = r \<and> (\<forall>ch \<in> set r. lower_char ch = ch)
         \<and> (\<exists>route \<in> set [(5::int, ''A'', ''B'')]. r = lower (route_key route))"
    by (rule conjunct1[OF t, unfolded e])
  have r3: "''A -> B'' \<notin> set [''a -> b'']"
    by (rule mp[OF conjunct2[OF conjunct2[OF t]] h, unfolded e])
  have m: "''a -> b'' \<in> set [''a -> b'']" by simp
  have r4: "lower ''a -> b'' = ''a -> b''"
    by (rule conjunct1[OF bspec[OF r2 m]])
  have k: "''a -> b'' = lower (route_key (5, ''A'', ''B''))" by code_simp
  show ?thesis by (intro conjI r1 r4 k h r3)
qed

end
